theory Spec2Isabelle
  imports Main "HOL-Library.Word"
begin

unbundle bit_operations_syntax

section \<open>JavaScript values used by the two components\<close>

text \<open>
  The storage of the ring buffer is an \<^verbatim>\<open>Int32Array\<close> and the UART registers are only
  ever combined with the bitwise operators, so both hold 32-bit integers.  A value
  that may be JavaScript's \<^verbatim>\<open>undefined\<close> is an option: \<open>None\<close> is \<^verbatim>\<open>undefined\<close>.
\<close>

type_synonym int32 = "32 word"

text \<open>
  \<^verbatim>\<open>x << k\<close> and \<^verbatim>\<open>x >> k\<close> of JavaScript: the left operand is reduced to a signed
  32-bit integer, the shift count to its low five bits, and the result is read
  back as a signed 32-bit integer.
\<close>

definition js_shl :: "int \<Rightarrow> nat \<Rightarrow> int" where
  "js_shl x k = sint (push_bit (k mod 32) (word_of_int x :: int32))"

definition js_sar :: "int \<Rightarrow> nat \<Rightarrow> int" where
  "js_sar x k = sint (signed_drop_bit (k mod 32) (word_of_int x :: int32))"

text \<open>
  Reading a typed array outside its bounds yields \<^verbatim>\<open>undefined\<close>; writing outside its
  bounds is ignored, which is what \<open>xs[i := v]\<close> does; storing \<^verbatim>\<open>undefined\<close> into an
  \<^verbatim>\<open>Int32Array\<close> stores 0.
\<close>

definition typed_read :: "int32 list \<Rightarrow> nat \<Rightarrow> int32 option" where
  "typed_read a i = (if i < length a then Some (a ! i) else None)"

definition to_int32 :: "int32 option \<Rightarrow> int32" where
  "to_int32 v = (case v of None \<Rightarrow> 0 | Some x \<Rightarrow> x)"

section \<open>RingBuffer\<close>

text \<open>
  The source file defines \<^verbatim>\<open>RingBuffer\<close> twice; the later definition (with
  \<^verbatim>\<open>min_capacity\<close>, \<^verbatim>\<open>empty_value\<close> and \<^verbatim>\<open>_shrink_count\<close>) replaces the earlier one and
  is the one embedded here.  The fields \<^verbatim>\<open>begin\<close>, \<^verbatim>\<open>end\<close>, \<^verbatim>\<open>length\<close> and \<^verbatim>\<open>array\<close> carry
  the prefix \<open>rb_\<close> because the plain names are taken in Isabelle.
\<close>

record ringbuffer =
  rb_begin :: nat
  rb_end :: nat
  rb_length :: nat
  shrink_count :: nat
  min_capacity :: nat
  rb_array :: "int32 list"
  empty_value :: int32

definition new_array :: "nat \<Rightarrow> int32 list" where
  "new_array sz = replicate sz 0"

definition reset :: "ringbuffer \<Rightarrow> ringbuffer" where
  "reset s = s\<lparr> rb_begin := 0, rb_end := 0, rb_length := 0,
                shrink_count := 0, min_capacity := 128,
                rb_array := new_array 16,
                empty_value := to_int32 (typed_read (new_array 16) 0) \<rparr>"

text \<open>The constructor only calls \<^verbatim>\<open>reset\<close>, which assigns every field.\<close>

definition RingBuffer :: ringbuffer where
  "RingBuffer = reset \<lparr> rb_begin = 0, rb_end = 0, rb_length = 0,
                        shrink_count = 0, min_capacity = 0,
                        rb_array = [], empty_value = 0 \<rparr>"

text \<open>
  The two copying loops of \<^verbatim>\<open>_realloc\<close> have the same body,
  \<^verbatim>\<open>while (i < bound) this.array[i++] = old[j++]\<close>; the loop returns the new array and
  the final value of \<^verbatim>\<open>i\<close>, with which the second loop starts.
\<close>

function copy_loop :: "int32 list \<Rightarrow> int32 list \<Rightarrow> nat \<Rightarrow> nat \<Rightarrow> nat \<Rightarrow> int32 list \<times> nat" where
  "copy_loop dst old i j bound =
     (if i < bound
      then copy_loop (dst[i := to_int32 (typed_read old j)]) old (i + 1) (j + 1) bound
      else (dst, i))"
  by pat_completeness auto
termination
  by (relation "measure (\<lambda>(dst, old, i, j, bound). bound - i)") auto

declare copy_loop.simps [simp del]

text \<open>
  \<^verbatim>\<open>_realloc(size)\<close>.  The argument is an integer: \<^verbatim>\<open>_check_grow\<close> passes the result of
  a 32-bit shift, which can be negative.  \<^verbatim>\<open>Math.min(len, old.length - j)\<close> is taken
  on naturals: where the difference is negative the first loop does not run, as
  with the truncated difference 0.
\<close>

definition realloc :: "ringbuffer \<Rightarrow> int \<Rightarrow> ringbuffer" where
  "realloc s sz =
     (let len = rb_length s in
      if int len > sz then s
      else
        let old = rb_array s;
            j = rb_begin s;
            wrap = min len (length old - j);
            (a1, i1) = copy_loop (new_array (nat sz)) old 0 j wrap;
            (a2, i2) = copy_loop a1 old i1 0 len
        in s\<lparr> rb_array := a2, rb_begin := 0, rb_end := len \<rparr>)"

definition check_grow :: "ringbuffer \<Rightarrow> ringbuffer" where
  "check_grow s =
     (if rb_length s = length (rb_array s)
      then realloc s (js_shl (int (rb_length s)) 1)
      else s)"

definition check_shrink :: "ringbuffer \<Rightarrow> ringbuffer" where
  "check_shrink s =
     (let candidate_size = js_sar (int (length (rb_array s))) 2 in
      if int (rb_length s) \<le> js_sar candidate_size 1
         \<and> candidate_size \<ge> int (min_capacity s)
      then realloc (s\<lparr> shrink_count := shrink_count s + 1 \<rparr>) candidate_size
      else s)"

definition get :: "ringbuffer \<Rightarrow> nat \<Rightarrow> int32 option" where
  "get s index = typed_read (rb_array s) ((rb_begin s + index) mod length (rb_array s))"

definition push :: "int32 \<Rightarrow> ringbuffer \<Rightarrow> nat \<times> ringbuffer" where
  "push v s0 =
     (let s = check_grow s0;
          a = (rb_array s)[rb_end s := v];
          s' = s\<lparr> rb_array := a,
                  rb_end := (rb_end s + 1) mod length a,
                  rb_length := rb_length s + 1 \<rparr>
      in (rb_length s', s'))"

definition unshift :: "int32 \<Rightarrow> ringbuffer \<Rightarrow> nat \<times> ringbuffer" where
  "unshift v s0 =
     (let s = check_grow s0;
          b = (rb_begin s + length (rb_array s) - 1) mod length (rb_array s);
          s' = s\<lparr> rb_begin := b,
                  rb_array := (rb_array s)[b := v],
                  rb_length := rb_length s + 1 \<rparr>
      in (rb_length s', s'))"

definition pop :: "ringbuffer \<Rightarrow> int32 option \<times> ringbuffer" where
  "pop s0 =
     (if rb_length s0 = 0 then (None, s0)
      else
        let s = check_shrink s0;
            e = (rb_end s + length (rb_array s) - 1) mod length (rb_array s);
            result = typed_read (rb_array s) e
        in (result, s\<lparr> rb_length := rb_length s - 1,
                        rb_end := e,
                        rb_array := (rb_array s)[e := empty_value s] \<rparr>))"

definition shift :: "ringbuffer \<Rightarrow> int32 option \<times> ringbuffer" where
  "shift s0 =
     (if rb_length s0 = 0 then (None, s0)
      else
        let s = check_shrink s0;
            result = typed_read (rb_array s) (rb_begin s);
            a = (rb_array s)[rb_begin s := empty_value s]
        in (result, s\<lparr> rb_length := rb_length s - 1,
                        rb_array := a,
                        rb_begin := (rb_begin s + 1) mod length a \<rparr>))"

section \<open>UARTDev\<close>

text \<open>
  The two collaborators, \<^verbatim>\<open>intdev\<close> and \<^verbatim>\<open>odev\<close>, are only called; the calls made are
  recorded, in order, in the field \<open>trace\<close>.
\<close>

datatype event =
    Intdev_RaiseInterrupt int32
  | Intdev_ClearInterrupt int32
  | Odev_PutChar int32

datatype error = UnsupportedRegister

record uart =
  LCR :: int32
  LSR :: int32
  MSR :: int32
  IIR :: int32
  ints :: int32
  IER :: int32
  DLL :: int32
  DLH :: int32
  FCR :: int32
  MCR :: int32
  input :: int32
  fifo :: ringbuffer
  trace :: "event list"

definition UART_LSR_DATA_READY :: int32 where [simp]: "UART_LSR_DATA_READY = 0x1"
definition UART_LSR_FIFO_EMPTY :: int32 where [simp]: "UART_LSR_FIFO_EMPTY = 0x20"
definition UART_LSR_TRANSMITTER_EMPTY :: int32 where [simp]: "UART_LSR_TRANSMITTER_EMPTY = 0x40"
definition UART_IER_THRI :: int32 where [simp]: "UART_IER_THRI = 0x02"
definition UART_IER_RDI :: int32 where [simp]: "UART_IER_RDI = 0x01"
definition UART_IIR_MSI :: int32 where [simp]: "UART_IIR_MSI = 0x00"
definition UART_IIR_NO_INT :: int32 where [simp]: "UART_IIR_NO_INT = 0x01"
definition UART_IIR_THRI :: int32 where [simp]: "UART_IIR_THRI = 0x02"
definition UART_IIR_RDI :: int32 where [simp]: "UART_IIR_RDI = 0x04"
definition UART_IIR_RLSI :: int32 where [simp]: "UART_IIR_RLSI = 0x06"
definition UART_IIR_CTI :: int32 where [simp]: "UART_IIR_CTI = 0x0c"
definition UART_LCR_DLAB :: int32 where [simp]: "UART_LCR_DLAB = 0x80"

text \<open>\<^verbatim>\<open>1 << line\<close>: the shift count is the low five bits of \<^verbatim>\<open>line\<close>.\<close>

definition cause_bit :: "int32 \<Rightarrow> int32" where
  "cause_bit line = push_bit (unat line mod 32) 1"

definition Reset :: "uart \<Rightarrow> uart" where
  "Reset s = s\<lparr> LCR := 0x3,
                LSR := UART_LSR_TRANSMITTER_EMPTY OR UART_LSR_FIFO_EMPTY,
                MSR := 0, IIR := UART_IIR_NO_INT, ints := 0x0, IER := 0x0,
                DLL := 0, DLH := 0, FCR := 0x0, MCR := 0x0, input := 0 \<rparr>"

text \<open>The constructor: \<^verbatim>\<open>Reset\<close>, then a fresh receive buffer; nothing has been called yet.\<close>

definition UARTDev :: uart where
  "UARTDev = (Reset \<lparr> LCR = 0, LSR = 0, MSR = 0, IIR = 0, ints = 0, IER = 0,
                       DLL = 0, DLH = 0, FCR = 0, MCR = 0, input = 0,
                       fifo = RingBuffer, trace = [] \<rparr>) \<lparr> fifo := RingBuffer \<rparr>"

definition ThrowCTI :: "uart \<Rightarrow> uart" where
  "ThrowCTI s0 =
     (let s = s0\<lparr> ints := ints s0 OR cause_bit UART_IIR_CTI \<rparr> in
      if IER s AND UART_IER_RDI = 0 then s
      else if IIR s \<noteq> UART_IIR_RLSI \<and> IIR s \<noteq> UART_IIR_RDI
      then s\<lparr> IIR := UART_IIR_CTI, trace := trace s @ [Intdev_RaiseInterrupt 0x2] \<rparr>
      else s)"

definition ThrowTHRI :: "uart \<Rightarrow> uart" where
  "ThrowTHRI s0 =
     (let s = s0\<lparr> ints := ints s0 OR cause_bit UART_IIR_THRI \<rparr> in
      if IER s AND UART_IER_THRI = 0 then s
      else if IIR s AND UART_IIR_NO_INT \<noteq> 0 \<or> IIR s = UART_IIR_MSI \<or> IIR s = UART_IIR_THRI
      then s\<lparr> IIR := UART_IIR_THRI, trace := trace s @ [Intdev_RaiseInterrupt 0x2] \<rparr>
      else s)"

definition NextInterrupt :: "uart \<Rightarrow> uart" where
  "NextInterrupt s =
     (if ints s AND cause_bit UART_IIR_CTI \<noteq> 0 \<and> IER s AND UART_IER_RDI \<noteq> 0
      then ThrowCTI s
      else if ints s AND cause_bit UART_IIR_THRI \<noteq> 0 \<and> IER s AND UART_IER_THRI \<noteq> 0
      then ThrowTHRI s
      else s\<lparr> IIR := UART_IIR_NO_INT, trace := trace s @ [Intdev_ClearInterrupt 0x2] \<rparr>)"

definition ClearInterrupt :: "int32 \<Rightarrow> uart \<Rightarrow> uart" where
  "ClearInterrupt line s0 =
     (let s1 = s0\<lparr> ints := ints s0 AND NOT (cause_bit line) \<rparr>;
          s = s1\<lparr> IIR := UART_IIR_NO_INT \<rparr>
      in if line \<noteq> IIR s then s else NextInterrupt s)"

definition ReceiveChar :: "int32 \<Rightarrow> uart \<Rightarrow> uart" where
  "ReceiveChar x s0 =
     (let s1 = s0\<lparr> fifo := snd (push x (fifo s0)) \<rparr>;
          s = s1\<lparr> LSR := LSR s1 OR UART_LSR_DATA_READY \<rparr>
      in ThrowCTI s)"

text \<open>
  \<^verbatim>\<open>ReadReg8\<close>.  With DLAB set the addresses 0 and 1 return the divisor latches; every
  other address falls through to the second \<^verbatim>\<open>switch\<close>.  The \<^verbatim>\<open>default\<close> branch calls
  \<^verbatim>\<open>abort()\<close>, which is the error; no field has been assigned when it is reached.
\<close>

definition ReadReg8 :: "nat \<Rightarrow> uart \<Rightarrow> error + (int32 option \<times> uart)" where
  "ReadReg8 addr s0 =
     (if LCR s0 AND UART_LCR_DLAB \<noteq> 0 \<and> addr = 0 then Inr (Some (DLL s0), s0)
      else if LCR s0 AND UART_LCR_DLAB \<noteq> 0 \<and> addr = 1 then Inr (Some (DLH s0), s0)
      else if addr = 0 then
        (let s1 = s0\<lparr> input := 0 \<rparr>;
             s2 = ClearInterrupt UART_IIR_RDI s1;
             s3 = ClearInterrupt UART_IIR_CTI s2;
             fifo_len = rb_length (fifo s3);
             (ret, s4) = (if fifo_len \<ge> 1
                          then (let (r, f) = shift (fifo s3) in (r, s3\<lparr> fifo := f \<rparr>))
                          else (Some 0x21, s3));
             s5 = (if fifo_len > 1
                   then ThrowCTI (s4\<lparr> LSR := LSR s4 OR UART_LSR_DATA_READY \<rparr>)
                   else s4\<lparr> LSR := LSR s4 AND NOT UART_LSR_DATA_READY \<rparr>)
         in Inr (ret, s5))
      else if addr = 1 then Inr (Some (IER s0 AND 0x0F), s0)
      else if addr = 6 then Inr (Some (MSR s0), s0)
      else if addr = 2 then
        (let ret = (IIR s0 AND 0x0f) OR 0xC0;
             s = (if IIR s0 = UART_IIR_THRI then ClearInterrupt UART_IIR_THRI s0 else s0)
         in Inr (Some ret, s))
      else if addr = 3 then Inr (Some (LCR s0), s0)
      else if addr = 5 then Inr (Some (LSR s0), s0)
      else Inl UnsupportedRegister)"

text \<open>\<^verbatim>\<open>WriteReg8\<close>; the debug messages are not modelled.\<close>

definition WriteReg8 :: "nat \<Rightarrow> int32 \<Rightarrow> uart \<Rightarrow> error + uart" where
  "WriteReg8 addr x0 s0 =
     (let x = x0 AND 0xFF in
      if LCR s0 AND UART_LCR_DLAB \<noteq> 0 \<and> addr = 0 then Inr (s0\<lparr> DLL := x \<rparr>)
      else if LCR s0 AND UART_LCR_DLAB \<noteq> 0 \<and> addr = 1 then Inr (s0\<lparr> DLH := x \<rparr>)
      else if addr = 0 then
        (let s1 = s0\<lparr> LSR := LSR s0 AND NOT UART_LSR_FIFO_EMPTY \<rparr>;
             s2 = s1\<lparr> trace := trace s1 @ [Odev_PutChar x] \<rparr>;
             s3 = s2\<lparr> LSR := LSR s2 OR UART_LSR_FIFO_EMPTY \<rparr>
         in Inr (ThrowTHRI s3))
      else if addr = 1 then Inr (NextInterrupt (s0\<lparr> IER := x AND 0x0F \<rparr>))
      else if addr = 2 then Inr (s0\<lparr> FCR := x \<rparr>)
      else if addr = 3 then Inr (s0\<lparr> LCR := x \<rparr>)
      else if addr = 4 then Inr (s0\<lparr> MCR := x \<rparr>)
      else Inl UnsupportedRegister)"

text \<open>
  The operations a client of \<^verbatim>\<open>UARTDev\<close> can perform.  A register access to an
  unsupported address aborts before any field is assigned, so it leaves the state
  as it was.
\<close>

datatype uart_op =
    Op_ReceiveChar int32
  | Op_ReadReg8 nat
  | Op_WriteReg8 nat int32
  | Op_Reset
  | Op_ThrowCTI
  | Op_ThrowTHRI
  | Op_NextInterrupt
  | Op_ClearInterrupt int32

fun uart_step :: "uart_op \<Rightarrow> uart \<Rightarrow> uart" where
  "uart_step (Op_ReceiveChar x) s = ReceiveChar x s"
| "uart_step (Op_ReadReg8 a) s = (case ReadReg8 a s of Inl e \<Rightarrow> s | Inr (v, t) \<Rightarrow> t)"
| "uart_step (Op_WriteReg8 a x) s = (case WriteReg8 a x s of Inl e \<Rightarrow> s | Inr t \<Rightarrow> t)"
| "uart_step Op_Reset s = Reset s"
| "uart_step Op_ThrowCTI s = ThrowCTI s"
| "uart_step Op_ThrowTHRI s = ThrowTHRI s"
| "uart_step Op_NextInterrupt s = NextInterrupt s"
| "uart_step (Op_ClearInterrupt line) s = ClearInterrupt line s"

definition uart_run :: "uart_op list \<Rightarrow> uart \<Rightarrow> uart" where
  "uart_run ops s = fold uart_step ops s"

section \<open>Notions used to state the properties\<close>

subsection \<open>The queue held by a ring buffer\<close>

definition capacity :: "ringbuffer \<Rightarrow> nat" where
  "capacity s = length (rb_array s)"

definition is_pow2 :: "nat \<Rightarrow> bool" where
  "is_pow2 n \<longleftrightarrow> (\<exists>k<n. n = 2 ^ k)"

text \<open>The logical elements, oldest first: element \<open>i\<close> lives at \<open>(begin + i) mod capacity\<close>.\<close>

definition contents :: "ringbuffer \<Rightarrow> int32 list" where
  "contents s = map (\<lambda>i. rb_array s ! ((rb_begin s + i) mod capacity s)) [0..<rb_length s]"

text \<open>Every slot that holds no logical element holds \<^verbatim>\<open>empty_value\<close>.\<close>

definition vacant_slots_empty :: "ringbuffer \<Rightarrow> bool" where
  "vacant_slots_empty s \<longleftrightarrow>
     (\<forall>k\<in>{rb_length s..<capacity s}.
        rb_array s ! ((rb_begin s + k) mod capacity s) = empty_value s)"

text \<open>
  The invariant of the ring buffer.  The bound \<open>2 ^ 30\<close> on the capacity is the range
  in which the 32-bit shifts of \<^verbatim>\<open>_check_grow\<close> and \<^verbatim>\<open>_check_shrink\<close> are exact.
\<close>

definition rb_inv :: "ringbuffer \<Rightarrow> bool" where
  "rb_inv s \<longleftrightarrow>
     is_pow2 (capacity s) \<and> capacity s \<le> 2 ^ 30 \<and>
     rb_length s \<le> capacity s \<and> rb_begin s < capacity s \<and>
     rb_end s = (rb_begin s + rb_length s) mod capacity s \<and>
     empty_value s = 0 \<and> vacant_slots_empty s"

text \<open>
  \<open>represents s xs\<close>: the ring buffer \<open>s\<close> is well formed and holds the queue \<open>xs\<close>.
  \<open>cell xs k\<close> is what slot \<open>k\<close>, counted from \<^verbatim>\<open>begin\<close>, then holds.
\<close>

definition represents :: "ringbuffer \<Rightarrow> int32 list \<Rightarrow> bool" where
  "represents s xs \<longleftrightarrow> rb_inv s \<and> contents s = xs"

definition cell :: "int32 list \<Rightarrow> nat \<Rightarrow> int32" where
  "cell xs k = (if k < length xs then xs ! k else 0)"

subsection \<open>Operation sequences and the reference double-ended queue\<close>

datatype op = Push int32 | Unshift int32 | Pop | Shift | Get nat

datatype result = Len nat | Val "int32 option"

fun rb_step :: "op \<Rightarrow> ringbuffer \<Rightarrow> result \<times> ringbuffer" where
  "rb_step (Push v) s = (let (n, t) = push v s in (Len n, t))"
| "rb_step (Unshift v) s = (let (n, t) = unshift v s in (Len n, t))"
| "rb_step Pop s = (let (r, t) = pop s in (Val r, t))"
| "rb_step Shift s = (let (r, t) = shift s in (Val r, t))"
| "rb_step (Get i) s = (Val (get s i), s)"

text \<open>
  The reference is a JavaScript array, as in the test of the source: \<^verbatim>\<open>push\<close> and
  \<^verbatim>\<open>unshift\<close> return the new length, \<^verbatim>\<open>pop\<close> and \<^verbatim>\<open>shift\<close> return the removed element
  or \<^verbatim>\<open>undefined\<close>, and indexing outside the array yields \<^verbatim>\<open>undefined\<close>.
\<close>

fun ref_step :: "op \<Rightarrow> int32 list \<Rightarrow> result \<times> int32 list" where
  "ref_step (Push v) xs = (Len (length xs + 1), xs @ [v])"
| "ref_step (Unshift v) xs = (Len (length xs + 1), v # xs)"
| "ref_step Pop xs = (if xs = [] then (Val None, xs) else (Val (Some (last xs)), butlast xs))"
| "ref_step Shift xs = (if xs = [] then (Val None, xs) else (Val (Some (hd xs)), tl xs))"
| "ref_step (Get i) xs = (Val (if i < length xs then Some (xs ! i) else None), xs)"



definition rb_exec :: "op list \<Rightarrow> ringbuffer \<Rightarrow> ringbuffer" where
  "rb_exec ops s = fold (\<lambda>x t. snd (rb_step x t)) ops s"

definition ref_exec :: "op list \<Rightarrow> int32 list \<Rightarrow> int32 list" where
  "ref_exec ops xs = fold (\<lambda>x ys. snd (ref_step x ys)) ops xs"



subsection \<open>Observing the collaborators of the UART\<close>

text \<open>The bytes handed to \<^verbatim>\<open>odev.PutChar\<close>, in order.\<close>

fun put_chars :: "event list \<Rightarrow> int32 list" where
  "put_chars [] = []"
| "put_chars (Odev_PutChar x # es) = x # put_chars es"
| "put_chars (e # es) = put_chars es"

definition IIR_ok :: "uart \<Rightarrow> bool" where
  "IIR_ok s \<longleftrightarrow> IIR s \<in> {UART_IIR_NO_INT, UART_IIR_THRI, UART_IIR_CTI}"

text \<open>
  A state used as a concrete input below: the guest enables the transmitter
  interrupt (IER := 2) and transmits one byte, after which IIR reports
  Transmit-Holding-Empty.
\<close>

definition after_transmit :: uart where
  "after_transmit = uart_run [Op_WriteReg8 1 2, Op_WriteReg8 0 0x41] UARTDev"


section \<open>The 32-bit shifts\<close>

lemma sint_small: "- (2 ^ 31) \<le> x \<Longrightarrow> x < 2 ^ 31 \<Longrightarrow> sint (word_of_int x :: int32) = x"
  by (simp add: sint_sbintrunc' signed_take_bit_int_eq_self)

lemma js_shl_1: "0 \<le> x \<Longrightarrow> x < 2 ^ 30 \<Longrightarrow> js_shl x 1 = 2 * x"
proof -
  assume a: "0 \<le> x" "x < 2 ^ 30"
  have "push_bit (1 mod 32) (word_of_int x :: int32) = word_of_int (2 * x)"
    by (simp add: push_bit_eq_mult)
  moreover have "sint (word_of_int (2 * x) :: int32) = 2 * x"
    using a by (intro sint_small) simp_all
  ultimately show ?thesis
    unfolding js_shl_def by (simp only:)
qed


lemma js_sar_exact: "0 \<le> x \<Longrightarrow> x < 2 ^ 31 \<Longrightarrow> k < 32 \<Longrightarrow> js_sar x k = x div 2 ^ k"
  unfolding js_sar_def
  by (simp add: sint_signed_drop_bit_eq sint_small drop_bit_eq_div)

section \<open>Reallocation\<close>

text \<open>
  The two loops of \<^verbatim>\<open>_realloc\<close> copy the logical elements, in order, to the front of
  the new array; the rest of the new array keeps its initial zeros.
\<close>

lemma copy_loop_length: "length (fst (copy_loop dst old i j b)) = length dst"
  by (induction dst old i j b rule: copy_loop.induct) (subst copy_loop.simps, simp)

lemma copy_loop_snd: "snd (copy_loop dst old i j b) = max i b"
  by (induction dst old i j b rule: copy_loop.induct) (subst copy_loop.simps, simp)

lemma copy_loop_nth:
  "k < length dst \<Longrightarrow>
   fst (copy_loop dst old i j b) ! k =
     (if i \<le> k \<and> k < b then to_int32 (typed_read old (j + (k - i))) else dst ! k)"
proof (induction dst old i j b rule: copy_loop.induct)
  case (1 dst old i j bound)
  show ?case
  proof (cases "i < bound")
    case True
    let ?dst = "dst[i := to_int32 (typed_read old j)]"
    have step: "copy_loop dst old i j bound = copy_loop ?dst old (i + 1) (j + 1) bound"
      using True by (subst copy_loop.simps) simp
    have ih: "fst (copy_loop ?dst old (i + 1) (j + 1) bound) ! k =
        (if i + 1 \<le> k \<and> k < bound then to_int32 (typed_read old (j + 1 + (k - (i + 1))))
         else ?dst ! k)"
      using 1 True by simp
    consider "k < i" | "k = i" | "i < k" by linarith
    then show ?thesis
    proof cases
      case 1
      then show ?thesis unfolding step ih by simp
    next
      case 2
      then show ?thesis unfolding step ih using True \<open>k < length dst\<close> by simp
    next
      case 3
      then have "j + 1 + (k - (i + 1)) = j + (k - i)" by simp
      then show ?thesis unfolding step ih using 3 by simp
    qed
  next
    case False
    then show ?thesis by (subst copy_loop.simps) auto
  qed
qed

lemma realloc_array:
  assumes b: "rb_begin s < length (rb_array s)"
    and l: "rb_length s \<le> length (rb_array s)"
    and z: "int (rb_length s) \<le> sz"
  shows "realloc s sz =
           s\<lparr> rb_array := take (rb_length s) (rotate (rb_begin s) (rb_array s))
                           @ replicate (nat sz - rb_length s) 0,
              rb_begin := 0, rb_end := rb_length s \<rparr>"
proof -
  define old where "old = rb_array s"
  define len where "len = rb_length s"
  define bg where "bg = rb_begin s"
  define cap where "cap = length old"
  define wrap where "wrap = min len (cap - bg)"
  define a1 where "a1 = fst (copy_loop (new_array (nat sz)) old 0 bg wrap)"
  define a2 where "a2 = fst (copy_loop a1 old wrap 0 len)"
  have la1: "length a1 = nat sz"
    by (simp add: a1_def copy_loop_length new_array_def)
  have la2: "length a2 = nat sz"
    by (simp add: a2_def copy_loop_length la1)
  have lenz: "len \<le> nat sz" using z by (simp add: len_def)
  have bc: "bg < cap" using b by (simp add: bg_def cap_def old_def)
  have lc: "len \<le> cap" using l by (simp add: len_def cap_def old_def)
  have a1n: "a1 ! k = (if k < wrap then old ! (bg + k) else 0)" if "k < nat sz" for k
  proof -
    have "k < wrap \<Longrightarrow> bg + k < length old"
      using bc by (auto simp: wrap_def cap_def)
    then show ?thesis
      using that by (simp add: a1_def copy_loop_nth new_array_def typed_read_def to_int32_def)
  qed
  have a2n: "a2 ! k = (if k < len then old ! ((bg + k) mod cap) else 0)" if "k < nat sz" for k
  proof -
    have wl: "wrap \<le> len" by (simp add: wrap_def)
    consider "k < wrap" | "wrap \<le> k" "k < len" | "len \<le> k" by linarith
    then show ?thesis
    proof cases
      case 1
      then have "bg + k < cap" using bc by (auto simp: wrap_def)
      then show ?thesis
        using 1 wl that by (simp add: a2_def copy_loop_nth la1 a1n)
    next
      case 2
      then have w: "wrap = cap - bg" by (simp add: wrap_def)
      have i: "k - wrap < length old" using 2 lc bc by (simp add: w cap_def)
      have "cap \<le> bg + k" using 2 w by simp
      moreover have "bg + k < cap + cap" using 2 lc bc by simp
      ultimately have "(bg + k) mod cap = bg + k - cap"
        by (metis add_diff_cancel_left' le_Suc_ex less_diff_conv2 mod_add_self1 mod_less)
      moreover have "bg + k - cap = k - wrap" using bc by (simp add: w)
      ultimately show ?thesis
        using 2 that i by (simp add: a2_def copy_loop_nth la1 typed_read_def to_int32_def)
    next
      case 3
      then show ?thesis
        using wl that by (simp add: a2_def copy_loop_nth la1 a1n)
    qed
  qed
  have "a2 = take len (rotate bg old) @ replicate (nat sz - len) 0"
  proof (rule nth_equalityI)
    show "length a2 = length (take len (rotate bg old) @ replicate (nat sz - len) 0)"
      using lenz lc by (simp add: la2 cap_def)
  next
    fix k assume "k < length a2"
    then have k: "k < nat sz" by (simp add: la2)
    show "a2 ! k = (take len (rotate bg old) @ replicate (nat sz - len) 0) ! k"
      using k lc by (simp add: a2n nth_append nth_rotate cap_def)
  qed
  moreover have "realloc s sz = s\<lparr> rb_array := a2, rb_begin := 0, rb_end := len \<rparr>"
    using z
    by (simp add: realloc_def Let_def case_prod_beta a2_def a1_def wrap_def cap_def
        old_def len_def bg_def copy_loop_snd)
  ultimately show ?thesis
    by (simp add: len_def bg_def old_def)
qed

section \<open>The ring buffer holds a queue\<close>

lemma wrap_index:
  fixes L :: nat
  assumes "b < L" "j \<le> L"
  shows "(b + j) mod L = (if b + j < L then b + j else b + j - L)"
proof (cases "b + j < L")
  case True
  then show ?thesis by simp
next
  case False
  then have "b + j - L < L" using assms by simp
  moreover have "(b + j) mod L = (b + j - L) mod L"
    using False by (simp add: le_mod_geq)
  ultimately show ?thesis using False by simp
qed

lemma slot_inj:
  fixes L :: nat
  assumes "b < L" "i < L" "k < L"
  shows "(b + k) mod L = (b + i) mod L \<longleftrightarrow> k = i"
  using assms by (auto simp: wrap_index split: if_splits)

lemma is_pow2_pos: "is_pow2 n \<Longrightarrow> 0 < n"
  by (auto simp: is_pow2_def)

lemma is_pow2_power: "is_pow2 (2 ^ k)"
  unfolding is_pow2_def by (rule exI [of _ k]) simp

lemma is_pow2_double:
  assumes "is_pow2 n" "n < 2 ^ 30"
  shows "is_pow2 (2 * n) \<and> 2 * n \<le> 2 ^ 30"
proof -
  from assms obtain k where k: "n = 2 ^ k" by (auto simp: is_pow2_def)
  have "k < 30"
  proof (rule ccontr)
    assume "\<not> k < 30"
    then have "(2::nat) ^ 30 \<le> 2 ^ k" by (intro power_increasing) simp_all
    with assms k show False by simp
  qed
  then have "(2::nat) ^ (Suc k) \<le> 2 ^ 30"
    by (intro power_increasing) simp_all
  moreover have "is_pow2 (2 ^ Suc k)" by (rule is_pow2_power)
  ultimately show ?thesis using k by simp
qed

lemma is_pow2_quarter:
  assumes "is_pow2 n" "1 \<le> n div 4"
  shows "is_pow2 (n div 4)"
proof -
  from assms obtain k where k: "n = 2 ^ k" by (auto simp: is_pow2_def)
  have "2 \<le> k"
  proof (rule ccontr)
    assume "\<not> 2 \<le> k"
    then have "k = 0 \<or> k = 1" by arith
    then show False using assms(2) k by auto
  qed
  then obtain m where m: "k = m + 2" by (metis add.commute le_Suc_ex)
  have "n div 4 = 2 ^ m" by (simp add: k m)
  then show ?thesis by (simp add: is_pow2_power)
qed

lemma cell_simps:
  "cell (xs @ [v]) k = (if k = length xs then v else cell xs k)"
  "cell (v # xs) k = (if k = 0 then v else cell xs (k - 1))"
  "cell (tl xs) k = cell xs (k + 1)"
  "xs \<noteq> [] \<Longrightarrow> cell (butlast xs) k = (if k = length xs - 1 then 0 else cell xs k)"
     apply (simp add: cell_def nth_append)
    apply (cases k; simp add: cell_def)
   apply (cases xs; simp add: cell_def)
  apply (auto simp add: cell_def nth_butlast)
  done

lemma represents_cells:
  "represents s xs \<longleftrightarrow>
     is_pow2 (capacity s) \<and> capacity s \<le> 2 ^ 30 \<and> rb_begin s < capacity s \<and>
     rb_length s = length xs \<and> length xs \<le> capacity s \<and>
     rb_end s = (rb_begin s + length xs) mod capacity s \<and> empty_value s = 0 \<and>
     (\<forall>k<capacity s. rb_array s ! ((rb_begin s + k) mod capacity s) = cell xs k)"
  (is "?L \<longleftrightarrow> ?R")
proof
  assume l: ?L
  then have inv: "rb_inv s" and c: "contents s = xs" by (simp_all add: represents_def)
  have len: "length xs = rb_length s" using c by (auto simp: contents_def)
  have "rb_array s ! ((rb_begin s + k) mod capacity s) = cell xs k" if "k < capacity s" for k
  proof (cases "k < rb_length s")
    case True
    then show ?thesis using c by (auto simp: contents_def cell_def)
  next
    case False
    then show ?thesis
      using inv that len by (auto simp: rb_inv_def vacant_slots_empty_def cell_def)
  qed
  then show ?R using inv len by (auto simp: rb_inv_def)
next
  assume r: ?R
  then have "contents s = xs"
    by (intro nth_equalityI) (auto simp: contents_def cell_def)
  moreover have "rb_inv s"
    using r by (auto simp: rb_inv_def vacant_slots_empty_def cell_def)
  ultimately show ?L by (simp add: represents_def)
qed

lemma representsI:
  assumes "is_pow2 (capacity s)" "capacity s \<le> 2 ^ 30" "rb_begin s < capacity s"
    "rb_length s = length xs" "length xs \<le> capacity s"
    "rb_end s = (rb_begin s + length xs) mod capacity s" "empty_value s = 0"
    "\<And>k. k < capacity s \<Longrightarrow> rb_array s ! ((rb_begin s + k) mod capacity s) = cell xs k"
  shows "represents s xs"
  unfolding represents_cells using assms by blast

lemma represents_RingBuffer: "represents RingBuffer []"
proof -
  have "is_pow2 (2 ^ 4)" by (rule is_pow2_power)
  then have "is_pow2 16" by simp
  then show ?thesis
    by (simp add: represents_cells RingBuffer_def reset_def new_array_def capacity_def
        typed_read_def to_int32_def cell_def)
qed

lemma represents_shrink_count [simp]:
  "represents (s\<lparr> shrink_count := c \<rparr>) xs = represents s xs"
  by (simp add: represents_cells capacity_def)

lemma realloc_represents:
  assumes r: "represents s xs"
    and sz: "int (length xs) < sz" "is_pow2 (nat sz)" "nat sz \<le> 2 ^ 30"
  shows "represents (realloc s sz) xs \<and> capacity (realloc s sz) = nat sz"
proof -
  let ?len = "length xs"
  let ?a = "take ?len (rotate (rb_begin s) (rb_array s)) @ replicate (nat sz - ?len) 0"
  from r have c: "rb_begin s < capacity s" "rb_length s = ?len" "?len \<le> capacity s"
    "empty_value s = 0"
    and cells: "\<And>k. k < capacity s \<Longrightarrow> rb_array s ! ((rb_begin s + k) mod capacity s) = cell xs k"
    by (simp_all add: represents_cells)
  have eq: "realloc s sz = s\<lparr> rb_array := ?a, rb_begin := 0, rb_end := ?len \<rparr>"
    using realloc_array [of s sz] c sz by (simp add: capacity_def)
  have la: "length ?a = nat sz"
    using c sz by (simp add: capacity_def)
  have lz: "?len < nat sz" using sz by simp
  have n: "?a ! k = cell xs k" if "k < nat sz" for k
  proof (cases "k < ?len")
    case True
    then have "?a ! k = rb_array s ! ((rb_begin s + k) mod capacity s)"
      using c by (simp add: nth_append nth_rotate capacity_def)
    then show ?thesis using cells True c by simp
  next
    case False
    then show ?thesis using that c by (simp add: nth_append cell_def capacity_def)
  qed
  have "represents (s\<lparr> rb_array := ?a, rb_begin := 0, rb_end := ?len \<rparr>) xs"
    unfolding represents_cells using c sz lz n la
    by (simp add: capacity_def)
  then show ?thesis using eq la by (simp add: capacity_def)
qed

lemma realloc_fields:
  "rb_length (realloc s sz) = rb_length s"
  "min_capacity (realloc s sz) = min_capacity s"
  "shrink_count (realloc s sz) = shrink_count s"
  "empty_value (realloc s sz) = empty_value s"
  by (simp_all add: realloc_def Let_def case_prod_beta)

lemma check_grow_represents:
  assumes r: "represents s xs" and b: "length xs < 2 ^ 30"
  shows "represents (check_grow s) xs \<and> length xs < capacity (check_grow s)"
proof (cases "rb_length s = length (rb_array s)")
  case True
  from r have c: "rb_length s = length xs" "is_pow2 (capacity s)" "length xs \<le> capacity s"
    by (simp_all add: represents_cells)
  have cap: "capacity s = length xs" using True c by (simp add: capacity_def)
  have pos: "0 < length xs" using c cap is_pow2_pos by metis
  have sh: "js_shl (int (rb_length s)) 1 = 2 * int (length xs)"
    using js_shl_1 [of "int (length xs)"] b c by simp
  have p: "is_pow2 (2 * length xs) \<and> 2 * length xs \<le> 2 ^ 30"
    using is_pow2_double [of "length xs"] c cap b by simp
  have "represents (realloc s (2 * int (length xs))) xs
        \<and> capacity (realloc s (2 * int (length xs))) = nat (2 * int (length xs))"
    using r pos p by (intro realloc_represents) (simp_all add: nat_mult_distrib)
  then show ?thesis
    using True sh pos by (simp add: check_grow_def nat_mult_distrib)
next
  case False
  then show ?thesis
    using r by (auto simp: check_grow_def represents_cells capacity_def)
qed

lemma check_shrink_cases:
  assumes r: "represents s xs" and ne: "xs \<noteq> [] \<or> 0 < min_capacity s"
  shows "(check_shrink s = s \<or>
          (shrink_count (check_shrink s) = shrink_count s + 1
           \<and> capacity (check_shrink s) = capacity s div 4
           \<and> min_capacity s \<le> capacity (check_shrink s)
           \<and> 2 * length xs \<le> capacity (check_shrink s)))
         \<and> represents (check_shrink s) xs"
proof -
  from r have c: "rb_length s = length xs" "is_pow2 (capacity s)" "capacity s \<le> 2 ^ 30"
    by (simp_all add: represents_cells)
  let ?cand = "capacity s div 4"
  have c1: "js_sar (int (length (rb_array s))) 2 = int ?cand"
    using c by (simp add: js_sar_exact capacity_def zdiv_int)
  have "?cand < 2 ^ 31" using c by simp
  then have c2: "js_sar (int ?cand) 1 = int (?cand div 2)"
    by (simp add: js_sar_exact zdiv_int)
  show ?thesis
  proof (cases "length xs \<le> ?cand div 2 \<and> min_capacity s \<le> ?cand")
    case True
    have pos: "1 \<le> ?cand"
    proof (cases "xs = []")
      case True
      then show ?thesis using ne \<open>length xs \<le> ?cand div 2 \<and> min_capacity s \<le> ?cand\<close> by simp
    next
      case False
      then have "1 \<le> length xs" by (cases xs) simp_all
      then show ?thesis using True by arith
    qed
    have lt: "length xs < ?cand" using True pos by arith
    let ?s' = "s\<lparr> shrink_count := shrink_count s + 1 \<rparr>"
    have e: "check_shrink s = realloc ?s' (int ?cand)"
      unfolding check_shrink_def Let_def c1 c2 using True c by simp
    have "represents (realloc ?s' (int ?cand)) xs
          \<and> capacity (realloc ?s' (int ?cand)) = nat (int ?cand)"
      using r lt pos c by (intro realloc_represents) (simp_all add: is_pow2_quarter)
    moreover have "2 * length xs \<le> ?cand" using True by arith
    ultimately show ?thesis
      using e True by (simp add: realloc_fields)
  next
    case False
    then have "check_shrink s = s"
      unfolding check_shrink_def Let_def c1 c2 using c by auto
    then show ?thesis using r by simp
  qed
qed

section \<open>The operations of the ring buffer on the queue\<close>


lemma push_represents:
  assumes r: "represents s xs" and b: "length xs < 2 ^ 30"
  shows "fst (push v s) = length xs + 1 \<and> represents (snd (push v s)) (xs @ [v])"
proof -
  define g where "g = check_grow s"
  define L where "L = capacity g"
  from check_grow_represents [OF r b] have rg: "represents g xs" and lt: "length xs < L"
    by (simp_all add: g_def L_def)
  from rg have c: "is_pow2 L" "L \<le> 2 ^ 30" "rb_begin g < L" "rb_length g = length xs"
    "rb_end g = (rb_begin g + length xs) mod L" "empty_value g = 0"
    and cells: "\<And>k. k < L \<Longrightarrow> rb_array g ! ((rb_begin g + k) mod L) = cell xs k"
    by (simp_all add: represents_cells L_def)
  have La: "length (rb_array g) = L" by (simp add: L_def capacity_def)
  define t where "t = g\<lparr> rb_array := (rb_array g)[rb_end g := v],
                          rb_end := (rb_end g + 1) mod L,
                          rb_length := rb_length g + 1 \<rparr>"
  have p: "push v s = (rb_length g + 1, t)"
    by (simp add: push_def Let_def g_def [symmetric] t_def La)
  have e: "(rb_end g + 1) mod L = (rb_begin g + (length xs + 1)) mod L"
    unfolding c(5) by (simp add: mod_Suc_eq)
  have n: "rb_array t ! ((rb_begin t + k) mod L) = cell (xs @ [v]) k" if "k < L" for k
  proof -
    have "(rb_array g)[rb_end g := v] ! ((rb_begin g + k) mod L)
          = (if k = length xs then v else cell xs k)"
      using that lt c cells [OF that]
      by (simp add: nth_list_update La slot_inj)
    then show ?thesis by (simp add: t_def cell_simps)
  qed
  have "represents t (xs @ [v])"
    unfolding represents_cells using c lt e n
    by (simp add: t_def capacity_def La)
  then show ?thesis using p c by simp
qed


lemma pop_represents:
  assumes r: "represents s xs" and ne: "xs \<noteq> []"
  shows "fst (pop s) = Some (last xs) \<and> represents (snd (pop s)) (butlast xs)
         \<and> rb_array (snd (pop s)) ! rb_end (snd (pop s)) = empty_value (snd (pop s))
         \<and> rb_end (snd (pop s)) < capacity (snd (pop s))"
proof -
  define g where "g = check_shrink s"
  define L where "L = capacity g"
  from check_shrink_cases [OF r] ne have rg: "represents g xs"
    by (simp add: g_def)
  from rg have c: "is_pow2 L" "L \<le> 2 ^ 30" "rb_begin g < L" "rb_length g = length xs"
    "rb_end g = (rb_begin g + length xs) mod L" "empty_value g = 0" "length xs \<le> L"
    and cells: "\<And>k. k < L \<Longrightarrow> rb_array g ! ((rb_begin g + k) mod L) = cell xs k"
    by (simp_all add: represents_cells L_def)
  have La: "length (rb_array g) = L" by (simp add: L_def capacity_def)
  have Lpos: "0 < L" using c is_pow2_pos by simp
  have lpos: "0 < length xs" using ne by simp
  define e where "e = (rb_end g + L - 1) mod L"
  define t where "t = g\<lparr> rb_length := rb_length g - 1, rb_end := e,
                          rb_array := (rb_array g)[e := empty_value g] \<rparr>"
  have p: "pop s = (typed_read (rb_array g) e, t)"
    using r ne by (simp add: pop_def Let_def g_def [symmetric] t_def La e_def represents_cells)
  have eL: "e < L" using Lpos by (simp add: e_def)
  define j where "j = length xs - 1"
  have lj: "length xs = j + 1" using lpos by (simp add: j_def)
  have lb: "length (butlast xs) = j" by (simp add: j_def)
  have jL: "j < L" using c(7) lj by simp
  have eslot: "e = (rb_begin g + j) mod L"
  proof -
    have "rb_end g + L - 1 = rb_end g + (L - 1)" using Lpos by simp
    then have "e = (rb_end g + (L - 1)) mod L" by (simp add: e_def)
    also have "\<dots> = (rb_begin g + length xs + (L - 1)) mod L"
      unfolding c(5) by (rule mod_add_left_eq)
    also have "rb_begin g + length xs + (L - 1) = rb_begin g + j + L"
      using Lpos lj by arith
    finally show ?thesis by simp
  qed
  have "cell xs j = last xs"
    using ne lj by (simp add: cell_def last_conv_nth j_def)
  then have res: "typed_read (rb_array g) e = Some (last xs)"
    using cells [OF jL] eL by (simp add: typed_read_def La eslot)
  have cb: "cell (butlast xs) k = (if k = j then 0 else cell xs k)" for k
    using ne by (simp add: cell_simps j_def)
  have n: "rb_array t ! ((rb_begin t + k) mod L) = cell (butlast xs) k" if "k < L" for k
  proof -
    have "(rb_array g)[e := 0] ! ((rb_begin g + k) mod L)
          = (if k = j then 0 else cell xs k)"
      unfolding eslot using that jL c(3) cells [OF that] Lpos
      by (simp add: nth_list_update La slot_inj)
    then show ?thesis using c(6) by (simp add: t_def cb)
  qed
  have ct: "capacity t = L" by (simp add: t_def capacity_def La)
  have "represents t (butlast xs)"
  proof (rule representsI)
    show "is_pow2 (capacity t)" using c(1) by (simp add: ct)
    show "capacity t \<le> 2 ^ 30" using c(2) by (simp add: ct)
    show "rb_begin t < capacity t" using c(3) by (simp add: ct) (simp add: t_def)
    show "rb_length t = length (butlast xs)" using c(4) by (simp add: t_def)
    show "length (butlast xs) \<le> capacity t" using jL by (simp add: ct lb del: length_butlast)
    show "rb_end t = (rb_begin t + length (butlast xs)) mod capacity t"
      unfolding ct lb by (simp add: t_def eslot)
    show "empty_value t = 0" using c(6) by (simp add: t_def)
    show "rb_array t ! ((rb_begin t + k) mod capacity t) = cell (butlast xs) k"
      if "k < capacity t" for k
      using n [of k] that unfolding ct by simp
  qed
  moreover have "rb_array t ! rb_end t = empty_value t"
    using eL by (simp add: t_def La)
  moreover have "rb_end t < capacity t"
    using eL by (simp add: t_def capacity_def La)
  ultimately show ?thesis using p res by simp
qed

lemma shift_represents:
  assumes r: "represents s xs" and ne: "xs \<noteq> []"
  shows "fst (shift s) = Some (hd xs) \<and> represents (snd (shift s)) (tl xs)
         \<and> rb_array (snd (shift s)) ! rb_begin (check_shrink s) = empty_value (snd (shift s))
         \<and> rb_begin (check_shrink s) < capacity (snd (shift s))"
proof -
  define g where "g = check_shrink s"
  define L where "L = capacity g"
  from check_shrink_cases [OF r] ne have rg: "represents g xs"
    by (simp add: g_def)
  from rg have c: "is_pow2 L" "L \<le> 2 ^ 30" "rb_begin g < L" "rb_length g = length xs"
    "rb_end g = (rb_begin g + length xs) mod L" "empty_value g = 0" "length xs \<le> L"
    and cells: "\<And>k. k < L \<Longrightarrow> rb_array g ! ((rb_begin g + k) mod L) = cell xs k"
    by (simp_all add: represents_cells L_def)
  have La: "length (rb_array g) = L" by (simp add: L_def capacity_def)
  have Lpos: "0 < L" using c is_pow2_pos by simp
  have lpos: "0 < length xs" using ne by simp
  define b' where "b' = (rb_begin g + 1) mod L"
  define t where "t = g\<lparr> rb_length := rb_length g - 1,
                          rb_array := (rb_array g)[rb_begin g := empty_value g],
                          rb_begin := b' \<rparr>"
  have p: "shift s = (typed_read (rb_array g) (rb_begin g), t)"
    using r ne by (simp add: shift_def Let_def g_def [symmetric] t_def La b'_def represents_cells)
  have b'L: "b' < L" using Lpos by (simp add: b'_def)
  define j where "j = length xs - 1"
  have lj: "length xs = j + 1" using lpos by (simp add: j_def)
  have lt: "length (tl xs) = j" by (simp add: j_def)
  have jL: "j < L" using c(7) lj by simp
  have res: "typed_read (rb_array g) (rb_begin g) = Some (hd xs)"
    using cells [OF Lpos] c(3) ne lpos
    by (simp add: typed_read_def La cell_def hd_conv_nth)
  have fwd: "(b' + k) mod L = (rb_begin g + (k + 1)) mod L" for k
  proof -
    have "(b' + k) mod L = (rb_begin g + 1 + k) mod L"
      unfolding b'_def by (rule mod_add_left_eq)
    then show ?thesis by (simp add: add.commute add.left_commute)
  qed
  have e: "rb_end g = (b' + j) mod L"
    unfolding fwd c(5) lj ..
  have n: "rb_array t ! ((rb_begin t + k) mod L) = cell (tl xs) k" if "k < L" for k
  proof (cases "k + 1 < L")
    case True
    have "(rb_begin g + (k + 1)) mod L \<noteq> rb_begin g"
      using slot_inj [of "rb_begin g" L 0 "k + 1"] c(3) True Lpos by simp
    moreover have "rb_array g ! ((rb_begin g + (k + 1)) mod L) = cell xs (k + 1)"
      using cells [OF True] .
    ultimately have "(rb_array g)[rb_begin g := 0] ! ((b' + k) mod L) = cell (tl xs) k"
      unfolding fwd by (simp add: cell_simps)
    then show ?thesis using c(6) by (simp add: t_def)
  next
    case False
    then have k: "k + 1 = L" using that by simp
    have "(rb_begin g + (k + 1)) mod L = rb_begin g"
      unfolding k using c(3) by simp
    moreover have "\<not> k < length (tl xs)" using c(7) k by simp
    then have "cell (tl xs) k = 0" by (simp add: cell_def)
    ultimately have "(rb_array g)[rb_begin g := 0] ! ((b' + k) mod L) = cell (tl xs) k"
      unfolding fwd using c(3) by (simp add: La)
    then show ?thesis using c(6) by (simp add: t_def)
  qed
  have ct: "capacity t = L" by (simp add: t_def capacity_def La)
  have "represents t (tl xs)"
  proof (rule representsI)
    show "is_pow2 (capacity t)" using c(1) by (simp add: ct)
    show "capacity t \<le> 2 ^ 30" using c(2) by (simp add: ct)
    show "rb_begin t < capacity t" using b'L by (simp add: ct) (simp add: t_def)
    show "rb_length t = length (tl xs)" using c(4) by (simp add: t_def)
    show "length (tl xs) \<le> capacity t" using jL by (simp add: ct lt del: length_tl)
    show "rb_end t = (rb_begin t + length (tl xs)) mod capacity t"
      unfolding ct lt using e by (simp add: t_def)
    show "empty_value t = 0" using c(6) by (simp add: t_def)
    show "rb_array t ! ((rb_begin t + k) mod capacity t) = cell (tl xs) k"
      if "k < capacity t" for k
      using n [of k] that unfolding ct by simp
  qed
  moreover have "rb_array t ! rb_begin g = empty_value t"
    using c(3) by (simp add: t_def La)
  moreover have "rb_begin g < capacity t"
    using c(3) by (simp add: ct)
  ultimately show ?thesis using p res by (simp add: g_def)
qed

section \<open>Vacated slots\<close>

lemma rb_inv_represents: "rb_inv s \<Longrightarrow> represents s (contents s)"
  by (simp add: represents_def)

lemma represents_length: "represents s xs \<Longrightarrow> rb_length s = length xs"
  by (simp add: represents_cells)

lemma represents_vacant:
  "represents s xs \<Longrightarrow> vacant_slots_empty s \<and> contents s = xs"
  by (simp add: represents_def rb_inv_def)

lemma pop_result_slot:
  "rb_length s \<noteq> 0 \<Longrightarrow>
   fst (pop s) = typed_read (rb_array (check_shrink s)) (rb_end (snd (pop s)))"
  by (simp add: pop_def Let_def)

lemma shift_result_slot:
  "rb_length s \<noteq> 0 \<Longrightarrow>
   fst (shift s) = typed_read (rb_array (check_shrink s)) (rb_begin (check_shrink s))"
  by (simp add: shift_def Let_def)

text \<open>
  Claim C5.  On a well-formed, non-empty ring buffer \<^verbatim>\<open>pop\<close> and \<^verbatim>\<open>shift\<close> return the
  last and the first element of the queue.  The slot of the current storage that
  held the returned element (the storage after \<^verbatim>\<open>_check_shrink\<close>, which may have
  reallocated) holds \<^verbatim>\<open>empty_value\<close> afterwards, and so does every other slot that
  holds no logical element: no removed element remains in the storage.
\<close>

theorem pop_shift_vacate:
  assumes "rb_inv s" "rb_length s \<noteq> 0"
  shows "(\<exists>v t. pop s = (Some v, t) \<and> v = last (contents s)
            \<and> typed_read (rb_array (check_shrink s)) (rb_end t) = Some v
            \<and> rb_end t < capacity t
            \<and> rb_array t ! rb_end t = empty_value t
            \<and> vacant_slots_empty t \<and> contents t = butlast (contents s))
       \<and> (\<exists>v t. shift s = (Some v, t) \<and> v = hd (contents s)
            \<and> typed_read (rb_array (check_shrink s)) (rb_begin (check_shrink s)) = Some v
            \<and> rb_begin (check_shrink s) < capacity t
            \<and> rb_array t ! rb_begin (check_shrink s) = empty_value t
            \<and> vacant_slots_empty t \<and> contents t = tl (contents s))"
proof -
  have r: "represents s (contents s)" using assms(1) by (rule rb_inv_represents)
  have ne: "contents s \<noteq> []"
    using represents_length [OF r] assms(2) by auto
  obtain v t where p: "pop s = (v, t)" by (cases "pop s")
  obtain w u where q: "shift s = (w, u)" by (cases "shift s")
  have p1: "v = Some (last (contents s))" and p2: "represents t (butlast (contents s))"
    and p3: "rb_array t ! rb_end t = empty_value t" and p4: "rb_end t < capacity t"
    using pop_represents [OF r ne] p by simp_all
  have p5: "typed_read (rb_array (check_shrink s)) (rb_end t) = v"
    using pop_result_slot [OF assms(2)] p by simp
  have q1: "w = Some (hd (contents s))" and q2: "represents u (tl (contents s))"
    and q3: "rb_array u ! rb_begin (check_shrink s) = empty_value u"
    and q4: "rb_begin (check_shrink s) < capacity u"
    using shift_represents [OF r ne] q by simp_all
  have q5: "typed_read (rb_array (check_shrink s)) (rb_begin (check_shrink s)) = w"
    using shift_result_slot [OF assms(2)] q by simp
  have "pop s = (Some (last (contents s)), t)
        \<and> typed_read (rb_array (check_shrink s)) (rb_end t) = Some (last (contents s))
        \<and> rb_end t < capacity t \<and> rb_array t ! rb_end t = empty_value t
        \<and> vacant_slots_empty t \<and> contents t = butlast (contents s)"
    using p p1 p2 p3 p4 p5 represents_vacant [OF p2] by blast
  moreover have "shift s = (Some (hd (contents s)), u)
        \<and> typed_read (rb_array (check_shrink s)) (rb_begin (check_shrink s))
            = Some (hd (contents s))
        \<and> rb_begin (check_shrink s) < capacity u
        \<and> rb_array u ! rb_begin (check_shrink s) = empty_value u
        \<and> vacant_slots_empty u \<and> contents u = tl (contents s)"
    using q q1 q2 q3 q4 q5 represents_vacant [OF q2] by blast
  ultimately show ?thesis by blast
qed

lemma one_element: "represents (snd (push 7 RingBuffer)) [7]"
  using push_represents [OF represents_RingBuffer, of 7] by simp

theorem pop_shift_vacate_witness:
  "rb_inv (snd (push 7 RingBuffer)) \<and> rb_length (snd (push 7 RingBuffer)) \<noteq> 0
   \<and> (\<exists>t. pop (snd (push 7 RingBuffer)) = (Some 7, t)
          \<and> rb_array t ! rb_end t = empty_value t \<and> vacant_slots_empty t)
   \<and> (\<exists>t. shift (snd (push 7 RingBuffer)) = (Some 7, t)
          \<and> rb_array t ! rb_begin (check_shrink (snd (push 7 RingBuffer))) = empty_value t
          \<and> vacant_slots_empty t)"
proof -
  let ?s = "snd (push 7 RingBuffer)"
  have i: "rb_inv ?s" and c: "contents ?s = [7]"
    using one_element by (simp_all add: represents_def)
  have l: "rb_length ?s \<noteq> 0"
    using represents_length [OF one_element] by simp
  show ?thesis
    using pop_shift_vacate [OF i l] i l by (auto simp: c)
qed

section \<open>The ring buffer refines a double-ended queue\<close>

lemma rb_exec_Cons [simp]: "rb_exec (x # ops) s = rb_exec ops (snd (rb_step x s))"
  by (simp add: rb_exec_def)

lemma rb_exec_Nil [simp]: "rb_exec [] s = s"
  by (simp add: rb_exec_def)

lemma ref_exec_Cons [simp]: "ref_exec (x # ops) xs = ref_exec ops (snd (ref_step x xs))"
  by (simp add: ref_exec_def)

lemma ref_exec_Nil [simp]: "ref_exec [] xs = xs"
  by (simp add: ref_exec_def)






subsection \<open>A full buffer of capacity \<open>2 ^ 30\<close>\<close>


lemma ref_exec_append: "ref_exec (a @ b) xs = ref_exec b (ref_exec a xs)"
  by (simp add: ref_exec_def)










section \<open>Capacity\<close>





















section \<open>Removing from an empty ring buffer\<close>

text \<open>
  Claim C8.  On a ring buffer whose length is 0, \<^verbatim>\<open>pop\<close> and \<^verbatim>\<open>shift\<close> return
  \<^verbatim>\<open>undefined\<close> (no value, and no error: the operations have no failing branch) and
  leave every field of the buffer as it was.
\<close>

theorem pop_shift_empty:
  "rb_length s = 0 \<Longrightarrow> pop s = (None, s) \<and> shift s = (None, s)"
  by (simp add: pop_def shift_def)

theorem pop_shift_empty_witness:
  "rb_length RingBuffer = 0 \<and> pop RingBuffer = (None, RingBuffer)
   \<and> shift RingBuffer = (None, RingBuffer)"
  using pop_shift_empty [of RingBuffer] by (simp add: RingBuffer_def reset_def)

section \<open>The interrupt logic of the UART\<close>

lemma put_chars_append: "put_chars (xs @ ys) = put_chars xs @ put_chars ys"
  by (induction xs rule: put_chars.induct) simp_all

lemma cause_bit_simps:
  "cause_bit 12 = 0x1000" "cause_bit 2 = 0x4" "cause_bit 4 = 0x10"
  by (simp_all add: cause_bit_def)

lemmas mask_simps = and.assoc bit.conj_disj_distrib2

text \<open>
  \<^verbatim>\<open>ClearInterrupt\<close> compares \<^verbatim>\<open>line\<close> with \<^verbatim>\<open>this.IIR\<close> after \<^verbatim>\<open>this.IIR\<close> has been
  assigned \<^verbatim>\<open>UART_IIR_NO_INT\<close>: the comparison is with the constant 1.
\<close>

lemma ClearInterrupt_eq:
  "ClearInterrupt line s =
     (if line = UART_IIR_NO_INT
      then NextInterrupt (s\<lparr> ints := ints s AND NOT (cause_bit line), IIR := UART_IIR_NO_INT \<rparr>)
      else s\<lparr> ints := ints s AND NOT (cause_bit line), IIR := UART_IIR_NO_INT \<rparr>)"
  by (simp add: ClearInterrupt_def Let_def)

lemma ThrowTHRI_ints: "ints (ThrowTHRI s) = ints s OR cause_bit UART_IIR_THRI"
  by (simp add: ThrowTHRI_def Let_def)

lemma ThrowTHRI_LSR: "LSR (ThrowTHRI s) = LSR s"
  by (simp add: ThrowTHRI_def Let_def)

lemma ThrowTHRI_put_chars: "put_chars (trace (ThrowTHRI s)) = put_chars (trace s)"
  by (simp add: ThrowTHRI_def Let_def put_chars_append)

lemma after_transmit_eq:
  "after_transmit =
     UARTDev\<lparr> IER := 2, ints := 4, IIR := 2,
               trace := [Intdev_ClearInterrupt 2, Odev_PutChar 0x41, Intdev_RaiseInterrupt 2] \<rparr>"
  by (simp add: after_transmit_def uart_run_def WriteReg8_def UARTDev_def Reset_def
      NextInterrupt_def ThrowTHRI_def Let_def cause_bit_simps)

subsection \<open>Acknowledging a cause\<close>

text \<open>
  Claim C1 says that \<^verbatim>\<open>ClearInterrupt(c)\<close> calls \<^verbatim>\<open>NextInterrupt\<close> exactly when \<open>c\<close> is
  the cause that IIR reported before it was overwritten.  In the state reached by
  enabling the transmitter interrupt and transmitting one byte, IIR reports
  Transmit-Holding-Empty, and \<^verbatim>\<open>ClearInterrupt(UART_IIR_THRI)\<close> returns after the two
  assignments: no collaborator is called, while \<^verbatim>\<open>NextInterrupt\<close> on the state after
  the two assignments would have called \<^verbatim>\<open>intdev.ClearInterrupt(2)\<close>.
\<close>

theorem ClearInterrupt_THRI_no_NextInterrupt:
  "let s = after_transmit;
       u = s\<lparr> ints := ints s AND NOT (cause_bit UART_IIR_THRI), IIR := UART_IIR_NO_INT \<rparr>
   in IIR s = UART_IIR_THRI
      \<and> ClearInterrupt UART_IIR_THRI s = u
      \<and> trace (ClearInterrupt UART_IIR_THRI s) = trace s
      \<and> trace (NextInterrupt u) = trace s @ [Intdev_ClearInterrupt 0x2]"
  by (simp add: after_transmit_eq Let_def ClearInterrupt_eq NextInterrupt_def cause_bit_simps)

subsection \<open>Reading IIR\<close>

text \<open>
  Claim C6.  When IIR reports Transmit-Holding-Empty, reading address 2 returns the
  low four bits of IIR with the two top bits set, which is \<open>0xC2\<close>, and calls
  \<^verbatim>\<open>ClearInterrupt(UART_IIR_THRI)\<close>, which removes the cause from \<^verbatim>\<open>ints\<close>.  If the
  Character-Timeout cause is not both pending and enabled, a following
  \<^verbatim>\<open>NextInterrupt\<close> sets IIR to no-interrupt and calls \<^verbatim>\<open>intdev.ClearInterrupt(2)\<close>.
  Address 2 is not affected by DLAB, so the statement holds for every LCR.
\<close>

theorem ReadReg8_IIR_THRI:
  assumes "IIR s = UART_IIR_THRI"
  shows "\<exists>t. ReadReg8 2 s = Inr (Some ((IIR s AND 0x0f) OR 0xC0), t)
      \<and> (IIR s AND 0x0f) OR 0xC0 = 0xC2
      \<and> t = ClearInterrupt UART_IIR_THRI s
      \<and> ints t = ints s AND NOT (cause_bit UART_IIR_THRI)
      \<and> (\<not> (ints s AND cause_bit UART_IIR_CTI \<noteq> 0 \<and> IER s AND UART_IER_RDI \<noteq> 0) \<longrightarrow>
            IIR (NextInterrupt t) = UART_IIR_NO_INT
            \<and> trace (NextInterrupt t) = trace t @ [Intdev_ClearInterrupt 0x2])"
proof -
  let ?t = "ClearInterrupt UART_IIR_THRI s"
  have r: "ReadReg8 2 s = Inr (Some ((IIR s AND 0x0f) OR 0xC0), ?t)"
    using assms by (simp add: ReadReg8_def Let_def)
  have v: "(IIR s AND 0x0f) OR 0xC0 = 0xC2"
    using assms by simp
  have t: "?t = s\<lparr> ints := ints s AND NOT (cause_bit UART_IIR_THRI), IIR := UART_IIR_NO_INT \<rparr>"
    by (simp add: ClearInterrupt_eq)
  have n: "IIR (NextInterrupt ?t) = UART_IIR_NO_INT
            \<and> trace (NextInterrupt ?t) = trace ?t @ [Intdev_ClearInterrupt 0x2]"
    if "\<not> (ints s AND cause_bit UART_IIR_CTI \<noteq> 0 \<and> IER s AND UART_IER_RDI \<noteq> 0)"
    using that unfolding t
    by (auto simp add: NextInterrupt_def cause_bit_simps mask_simps)
  show ?thesis using r v t n by simp
qed

theorem ReadReg8_IIR_THRI_witness:
  "IIR after_transmit = UART_IIR_THRI \<and>
   (\<exists>t. ReadReg8 2 after_transmit = Inr (Some 0xC2, t)
      \<and> IIR (NextInterrupt t) = UART_IIR_NO_INT
      \<and> trace (NextInterrupt t) = trace t @ [Intdev_ClearInterrupt 0x2])"
proof -
  have h: "IIR after_transmit = UART_IIR_THRI"
    by (simp add: after_transmit_eq)
  have c: "\<not> (ints after_transmit AND cause_bit UART_IIR_CTI \<noteq> 0
              \<and> IER after_transmit AND UART_IER_RDI \<noteq> 0)"
    by (simp add: after_transmit_eq cause_bit_simps)
  show ?thesis
    using ReadReg8_IIR_THRI [OF h] h c by auto
qed

subsection \<open>Receiving a byte\<close>





subsection \<open>Reading the receive buffer\<close>







subsection \<open>Transmitting a byte\<close>

text \<open>
  Claim C7.  With DLAB clear, writing \<open>B\<close> to address 0 calls \<^verbatim>\<open>odev.PutChar\<close> once,
  with \<open>B\<close> masked to eight bits; then \<^verbatim>\<open>ThrowTHRI\<close> runs on the state in which the
  FIFO-Empty bit of LSR is set again, so that the bit is set and the
  Transmit-Holding-Empty cause is pending when the write returns.
\<close>

theorem WriteReg8_transmit:
  assumes "LCR s AND UART_LCR_DLAB = 0"
  shows "\<exists>t. WriteReg8 0 B s = Inr t
     \<and> t = ThrowTHRI (s\<lparr> trace := trace s @ [Odev_PutChar (B AND 0xFF)],
                          LSR := (LSR s AND NOT UART_LSR_FIFO_EMPTY) OR UART_LSR_FIFO_EMPTY \<rparr>)
     \<and> put_chars (trace t) = put_chars (trace s) @ [B AND 0xFF]
     \<and> LSR t AND UART_LSR_FIFO_EMPTY \<noteq> 0
     \<and> ints t AND cause_bit UART_IIR_THRI \<noteq> 0"
proof -
  let ?u = "s\<lparr> trace := trace s @ [Odev_PutChar (B AND 0xFF)],
               LSR := (LSR s AND NOT UART_LSR_FIFO_EMPTY) OR UART_LSR_FIFO_EMPTY \<rparr>"
  have w: "WriteReg8 0 B s = Inr (ThrowTHRI ?u)"
    using assms by (simp add: WriteReg8_def Let_def)
  have p: "put_chars (trace (ThrowTHRI ?u)) = put_chars (trace s) @ [B AND 0xFF]"
    by (simp add: ThrowTHRI_put_chars put_chars_append)
  have l: "LSR (ThrowTHRI ?u) AND UART_LSR_FIFO_EMPTY \<noteq> 0"
    by (simp add: ThrowTHRI_LSR mask_simps)
  have i: "ints (ThrowTHRI ?u) AND cause_bit UART_IIR_THRI \<noteq> 0"
    by (simp add: ThrowTHRI_ints cause_bit_simps mask_simps)
  show ?thesis using w p l i by blast
qed

theorem WriteReg8_transmit_witness:
  "LCR UARTDev AND UART_LCR_DLAB = 0 \<and>
   (\<exists>t. WriteReg8 0 0x141 UARTDev = Inr t \<and> put_chars (trace t) = [0x41]
        \<and> LSR t AND UART_LSR_FIFO_EMPTY \<noteq> 0)"
proof -
  have h: "LCR UARTDev AND UART_LCR_DLAB = 0"
    by (simp add: UARTDev_def Reset_def)
  have e: "put_chars (trace UARTDev) = []"
    by (simp add: UARTDev_def Reset_def)
  show ?thesis
    using WriteReg8_transmit [OF h, of "0x141"] h e by auto
qed

subsection \<open>The values of IIR\<close>

lemma IIR_ok_update [simp]:
  "IIR_ok (s\<lparr> LSR := a \<rparr>) = IIR_ok s"
  "IIR_ok (s\<lparr> fifo := f \<rparr>) = IIR_ok s"
  "IIR_ok (s\<lparr> input := i \<rparr>) = IIR_ok s"
  "IIR_ok (s\<lparr> IER := e \<rparr>) = IIR_ok s"
  "IIR_ok (s\<lparr> ints := e \<rparr>) = IIR_ok s"
  "IIR_ok (s\<lparr> DLL := e \<rparr>) = IIR_ok s"
  "IIR_ok (s\<lparr> DLH := e \<rparr>) = IIR_ok s"
  "IIR_ok (s\<lparr> FCR := e \<rparr>) = IIR_ok s"
  "IIR_ok (s\<lparr> LCR := e \<rparr>) = IIR_ok s"
  "IIR_ok (s\<lparr> MCR := e \<rparr>) = IIR_ok s"
  "IIR_ok (s\<lparr> trace := tr \<rparr>) = IIR_ok s"
  by (simp_all add: IIR_ok_def)

lemma IIR_ok_assign [simp]:
  "IIR_ok (s\<lparr> IIR := 1 \<rparr>)" "IIR_ok (s\<lparr> IIR := 2 \<rparr>)" "IIR_ok (s\<lparr> IIR := 12 \<rparr>)"
  by (simp_all add: IIR_ok_def)

lemma ThrowCTI_IIR_ok: "IIR_ok s \<Longrightarrow> IIR_ok (ThrowCTI s)"
  by (simp add: ThrowCTI_def Let_def)

lemma ThrowTHRI_IIR_ok: "IIR_ok s \<Longrightarrow> IIR_ok (ThrowTHRI s)"
  by (simp add: ThrowTHRI_def Let_def)

lemma NextInterrupt_IIR_ok: "IIR_ok s \<Longrightarrow> IIR_ok (NextInterrupt s)"
  by (simp add: NextInterrupt_def ThrowCTI_IIR_ok ThrowTHRI_IIR_ok)

lemma ClearInterrupt_IIR_ok: "IIR_ok (ClearInterrupt line s)"
  by (simp add: ClearInterrupt_eq NextInterrupt_IIR_ok)

lemma Reset_IIR_ok: "IIR_ok (Reset s)"
  by (simp add: Reset_def)

lemma ReceiveChar_IIR_ok: "IIR_ok s \<Longrightarrow> IIR_ok (ReceiveChar x s)"
  by (simp add: ReceiveChar_def Let_def ThrowCTI_IIR_ok)

lemma ReadReg8_IIR_ok: "IIR_ok s \<Longrightarrow> ReadReg8 a s = Inr (v, t) \<Longrightarrow> IIR_ok t"
  by (auto simp: ReadReg8_def Let_def ClearInterrupt_IIR_ok ThrowCTI_IIR_ok
      split: if_splits prod.splits)

lemma WriteReg8_IIR_ok: "IIR_ok s \<Longrightarrow> WriteReg8 a x s = Inr t \<Longrightarrow> IIR_ok t"
  by (auto simp: WriteReg8_def Let_def ThrowTHRI_IIR_ok NextInterrupt_IIR_ok
      split: if_splits)

lemma uart_step_IIR_ok:
  assumes "IIR_ok s"
  shows "IIR_ok (uart_step x s)"
proof (cases x)
  case (Op_ReceiveChar c)
  then show ?thesis using assms by (simp add: ReceiveChar_IIR_ok)
next
  case (Op_ReadReg8 a)
  show ?thesis
  proof (cases "ReadReg8 a s")
    case (Inl e)
    then show ?thesis using assms Op_ReadReg8 by simp
  next
    case (Inr r)
    obtain v t where r: "r = (v, t)" by (cases r)
    have "IIR_ok t" using ReadReg8_IIR_ok [OF assms] Inr r by simp
    then show ?thesis using Op_ReadReg8 Inr r by simp
  qed
next
  case (Op_WriteReg8 a c)
  show ?thesis
  proof (cases "WriteReg8 a c s")
    case (Inl e)
    then show ?thesis using assms Op_WriteReg8 by simp
  next
    case (Inr t)
    have "IIR_ok t" using WriteReg8_IIR_ok [OF assms] Inr by simp
    then show ?thesis using Op_WriteReg8 Inr by simp
  qed
next
  case Op_Reset
  then show ?thesis by (simp add: Reset_IIR_ok)
next
  case Op_ThrowCTI
  then show ?thesis using assms by (simp add: ThrowCTI_IIR_ok)
next
  case Op_ThrowTHRI
  then show ?thesis using assms by (simp add: ThrowTHRI_IIR_ok)
next
  case Op_NextInterrupt
  then show ?thesis using assms by (simp add: NextInterrupt_IIR_ok)
next
  case (Op_ClearInterrupt line)
  then show ?thesis by (simp add: ClearInterrupt_IIR_ok)
qed

lemma uart_run_IIR_ok: "IIR_ok s \<Longrightarrow> IIR_ok (uart_run ops s)"
  unfolding uart_run_def
  by (induction ops arbitrary: s) (simp_all add: uart_step_IIR_ok)

lemma UARTDev_IIR_ok: "IIR_ok UARTDev"
  by (simp add: UARTDev_def Reset_def IIR_ok_def)

text \<open>Each of the three values is reported in some reachable state.\<close>

lemma IIR_values_attained:
  "IIR (uart_run [] UARTDev) = UART_IIR_NO_INT"
  "IIR after_transmit = UART_IIR_THRI"
  "IIR (uart_run [Op_WriteReg8 1 1, Op_ReceiveChar 0x41] UARTDev) = UART_IIR_CTI"
    apply (simp add: uart_run_def UARTDev_def Reset_def)
   apply (simp add: after_transmit_eq)
  apply (simp add: uart_run_def WriteReg8_def UARTDev_def Reset_def NextInterrupt_def
      ThrowCTI_def ReceiveChar_def Let_def cause_bit_simps)
  done

text \<open>
  Claim C10.  In every state reached from the constructor by any sequence of
  \<^verbatim>\<open>ReceiveChar\<close>, \<^verbatim>\<open>ReadReg8\<close>, \<^verbatim>\<open>WriteReg8\<close>, \<^verbatim>\<open>Reset\<close>, \<^verbatim>\<open>ThrowCTI\<close>, \<^verbatim>\<open>ThrowTHRI\<close>,
  \<^verbatim>\<open>NextInterrupt\<close> and \<^verbatim>\<open>ClearInterrupt\<close>, IIR is no-interrupt (1),
  Transmit-Holding-Empty (2) or Character-Timeout (12), and is never the
  Receiver-Line-Status, Receive-Data or Modem-Status code.
\<close>

theorem IIR_three_values:
  "IIR (uart_run ops UARTDev) \<in> {UART_IIR_NO_INT, UART_IIR_THRI, UART_IIR_CTI}
   \<and> IIR (uart_run ops UARTDev) \<notin> {UART_IIR_RLSI, UART_IIR_RDI, UART_IIR_MSI}"
  using uart_run_IIR_ok [OF UARTDev_IIR_ok, of ops] by (auto simp: IIR_ok_def)

end
